theory Spec2Isabelle
  imports Complex_Main "HOL-Library.Multiset" "HOL-Library.Sublist"
begin

section \<open>The vialsort puzzle (src/vialsort.py)\<close>

text \<open>
  Units are Python integers, a vial is a Python list of units whose top is the END of
  the list, and a board holds its vials in a list. An exception of the source is a value
  of \<open>error\<close>; an operation that raises returns \<open>Inl\<close> of it. The one loop of the
  source that need not terminate (the \<open>while\<close> of \<open>PourAction.apply\<close>) is a partial
  function into \<open>option\<close>: \<open>None\<close> is "never returns".
\<close>

datatype error = IndexError | KeyError | ValueError string | TypeError

type_synonym vial = "int list"

text \<open>
  \<open>xs[i]\<close> of a Python list: an index from \<open>0\<close> to \<open>len(xs) - 1\<close> is taken as it is,
  one from \<open>-len(xs)\<close> to \<open>-1\<close> counts from the end, any other raises IndexError.
\<close>

definition list_index :: "'a list \<Rightarrow> int \<Rightarrow> error + nat" where
  "list_index xs i =
     (let n = int (length xs) in
      if 0 \<le> i \<and> i < n then Inr (nat i)
      else if - n \<le> i \<and> i < 0 then Inr (nat (n + i))
      else Inl IndexError)"

subsection \<open>The values \<open>json.loads\<close> returns\<close>

text \<open>
  A JSON object is a Python dict, given by its items (a key occurs once); a number with
  a fraction or an exponent, and the literals \<open>NaN\<close>, \<open>Infinity\<close> and \<open>-Infinity\<close> that
  \<open>json.loads\<close> accepts, are Python floats, each finite float being a rational number.
\<close>

datatype pyfloat = Finite rat | PosInf | NegInf | NaN

datatype json =
    JNull
  | JBool bool
  | JInt int
  | JFloat pyfloat
  | JStr string
  | JArr "json list"
  | JObj "(string \<times> json) list"

text \<open>
  \<open>load_board\<close> hands the value of the key \<open>vial_size\<close> to the board as it was read,
  so \<open>board.vial_size\<close> is any such value, and the source compares the length of a vial
  with it in three ways. Python compares an int with an int, a boolean (\<open>True\<close> is \<open>1\<close>)
  or a float exactly; \<open><\<close> and \<open>>\<close> raise TypeError for any other right-hand side,
  and \<open>!=\<close> holds of it.
\<close>

fun is_number :: "json \<Rightarrow> bool" where
  "is_number (JInt m) = True"
| "is_number (JBool t) = True"
| "is_number (JFloat f) = True"
| "is_number _ = False"

text \<open>\<open>n < vial_size\<close>\<close>

fun len_lt :: "nat \<Rightarrow> json \<Rightarrow> error + bool" where
  "len_lt n (JInt m) = Inr (int n < m)"
| "len_lt n (JBool t) = Inr (int n < (if t then 1 else 0))"
| "len_lt n (JFloat (Finite r)) = Inr (of_nat n < r)"
| "len_lt n (JFloat PosInf) = Inr True"
| "len_lt n (JFloat NegInf) = Inr False"
| "len_lt n (JFloat NaN) = Inr False"
| "len_lt n _ = Inl TypeError"

text \<open>\<open>n > vial_size\<close>\<close>

fun len_gt :: "nat \<Rightarrow> json \<Rightarrow> error + bool" where
  "len_gt n (JInt m) = Inr (int n > m)"
| "len_gt n (JBool t) = Inr (int n > (if t then 1 else 0))"
| "len_gt n (JFloat (Finite r)) = Inr (of_nat n > r)"
| "len_gt n (JFloat PosInf) = Inr False"
| "len_gt n (JFloat NegInf) = Inr True"
| "len_gt n (JFloat NaN) = Inr False"
| "len_gt n _ = Inl TypeError"

text \<open>\<open>n != vial_size\<close>\<close>

fun len_ne :: "nat \<Rightarrow> json \<Rightarrow> bool" where
  "len_ne n (JInt m) = (int n \<noteq> m)"
| "len_ne n (JBool t) = (int n \<noteq> (if t then 1 else 0))"
| "len_ne n (JFloat (Finite r)) = (of_nat n \<noteq> r)"
| "len_ne n _ = True"

subsection \<open>Actions and the board\<close>

record pour_action =
  from_index :: int
  to_index :: int
  qty_moved :: nat
  applied :: bool

text \<open>\<open>PourAction.__init__\<close>\<close>

definition PourAction_init :: "int \<Rightarrow> int \<Rightarrow> pour_action" where
  "PourAction_init fi ti =
     \<lparr>from_index = fi, to_index = ti, qty_moved = 0, applied = False\<rparr>"

datatype action = PourAction pour_action | AddEmptyVialAction

record board =
  vial_size :: json
  vials :: "vial list"
  history :: "action list"

text \<open>\<open>Board.__init__\<close> with the default \<open>history=tuple()\<close>.\<close>

definition Board_init :: "json \<Rightarrow> vial list \<Rightarrow> board" where
  "Board_init vsize vs = \<lparr>vial_size = vsize, vials = vs, history = []\<rparr>"

subsection \<open>\<open>PourAction.apply\<close>\<close>

text \<open>
  The vials of a board are distinct list objects at distinct positions (\<open>load_board\<close>
  builds them with \<open>json.loads\<close>), so \<open>from_vial\<close> and \<open>to_vial\<close> are the same object
  exactly when the two indices name the same position. The loop body therefore works on
  the list of vials by position: \<open>to_vial.append(from_vial[-1])\<close> updates position \<open>j\<close>,
  then \<open>from_vial.pop()\<close> updates position \<open>i\<close> of the result, which for \<open>i = j\<close> is the
  vial that has just been appended to.
\<close>

definition move_top :: "nat \<Rightarrow> nat \<Rightarrow> vial list \<Rightarrow> vial list" where
  "move_top i j vs =
     (let vs1 = vs[j := vs ! j @ [last (vs ! i)]]
      in vs1[i := butlast (vs1 ! i)])"

text \<open>
  The loop condition is an \<open>and\<close> of three tests, read from the left: the comparison
  with \<open>board.vial_size\<close> is made, and can raise, only when the first two hold.
\<close>

partial_function (option) pour_loop ::
  "json \<Rightarrow> int \<Rightarrow> nat \<Rightarrow> nat \<Rightarrow> vial list \<Rightarrow> nat \<Rightarrow> (error + vial list \<times> nat) option" where
  "pour_loop vsize color i j vs qty =
     (if length (vs ! i) > 0 \<and> last (vs ! i) = color
      then (case len_lt (length (vs ! j)) vsize of
              Inl e \<Rightarrow> Some (Inl e)
            | Inr below \<Rightarrow>
                if below then pour_loop vsize color i j (move_top i j vs) (qty + 1)
                else Some (Inr (vs, qty)))
      else Some (Inr (vs, qty)))"

definition PourAction_apply ::
  "pour_action \<Rightarrow> board \<Rightarrow> (error + bool \<times> pour_action \<times> board) option" where
  "PourAction_apply a b =
     (let a1 = a\<lparr>applied := True\<rparr> in
      case list_index (vials b) (from_index a1) of
        Inl e \<Rightarrow> Some (Inl e)
      | Inr i \<Rightarrow>
     (case list_index (vials b) (to_index a1) of
        Inl e \<Rightarrow> Some (Inl e)
      | Inr j \<Rightarrow>
     (if length (vials b ! i) = 0 then Some (Inr (False, a1, b))
      else let color = last (vials b ! i) in
        if length (vials b ! j) > 0 \<and> last (vials b ! j) \<noteq> color
        then Some (Inr (False, a1, b))
        else (case pour_loop (vial_size b) color i j (vials b) (qty_moved a1) of
                None \<Rightarrow> None
              | Some (Inl e) \<Rightarrow> Some (Inl e)
              | Some (Inr (vs, q)) \<Rightarrow>
                  Some (Inr (0 < q, a1\<lparr>qty_moved := q\<rparr>, b\<lparr>vials := vs\<rparr>))))))"

subsection \<open>\<open>PourAction.undo\<close>\<close>

text \<open>
  \<open>for i in range(self._qty_moved): from_vial.append(to_vial.pop())\<close>; \<open>pop\<close> of an
  empty list raises IndexError.
\<close>

fun undo_loop :: "nat \<Rightarrow> nat \<Rightarrow> nat \<Rightarrow> vial list \<Rightarrow> error + vial list" where
  "undo_loop i j 0 vs = Inr vs"
| "undo_loop i j (Suc n) vs =
     (if vs ! j = [] then Inl IndexError
      else let x = last (vs ! j);
               vs1 = vs[j := butlast (vs ! j)]
           in undo_loop i j n (vs1[i := vs1 ! i @ [x]]))"

definition PourAction_undo :: "pour_action \<Rightarrow> board \<Rightarrow> error + board" where
  "PourAction_undo a b =
     (if \<not> applied a then Inl (ValueError ''Action not yet applied'')
      else case list_index (vials b) (from_index a) of
        Inl e \<Rightarrow> Inl e
      | Inr i \<Rightarrow>
     (case list_index (vials b) (to_index a) of
        Inl e \<Rightarrow> Inl e
      | Inr j \<Rightarrow>
     (case undo_loop i j (qty_moved a) (vials b) of
        Inl e \<Rightarrow> Inl e
      | Inr vs \<Rightarrow> Inr (b\<lparr>vials := vs\<rparr>))))"

subsection \<open>\<open>AddEmptyVialAction\<close>\<close>

definition AddEmptyVialAction_apply :: "board \<Rightarrow> bool \<times> board" where
  "AddEmptyVialAction_apply b = (True, b\<lparr>vials := vials b @ [[]]\<rparr>)"

definition AddEmptyVialAction_undo :: "board \<Rightarrow> error + board" where
  "AddEmptyVialAction_undo b =
     (if vials b = [] then Inl IndexError else Inr (b\<lparr>vials := butlast (vials b)\<rparr>))"

subsection \<open>The board's operations\<close>

fun action_apply :: "action \<Rightarrow> board \<Rightarrow> (error + bool \<times> action \<times> board) option" where
  "action_apply (PourAction a) b =
     (case PourAction_apply a b of
        None \<Rightarrow> None
      | Some (Inl e) \<Rightarrow> Some (Inl e)
      | Some (Inr (r, a', b')) \<Rightarrow> Some (Inr (r, PourAction a', b')))"
| "action_apply AddEmptyVialAction b =
     (case AddEmptyVialAction_apply b of (r, b') \<Rightarrow> Some (Inr (r, AddEmptyVialAction, b')))"

fun action_undo :: "action \<Rightarrow> board \<Rightarrow> error + board" where
  "action_undo (PourAction a) b = PourAction_undo a b"
| "action_undo AddEmptyVialAction b = AddEmptyVialAction_undo b"

definition apply_action :: "board \<Rightarrow> action \<Rightarrow> (error + board) option" where
  "apply_action b a =
     (case action_apply a b of
        None \<Rightarrow> None
      | Some (Inl e) \<Rightarrow> Some (Inl e)
      | Some (Inr (r, a', b')) \<Rightarrow>
          if \<not> r then Some (Inr b')
          else Some (Inr (b'\<lparr>history := history b' @ [a']\<rparr>)))"

definition undo :: "board \<Rightarrow> error + board" where
  "undo b =
     (if length (history b) = 0 then Inr b
      else let a = last (history b);
               b1 = b\<lparr>history := butlast (history b)\<rparr>
           in action_undo a b1)"

definition pour :: "board \<Rightarrow> int \<Rightarrow> int \<Rightarrow> (error + board) option" where
  "pour b from_vial_index to_vial_index =
     apply_action b (PourAction (PourAction_init from_vial_index to_vial_index))"

definition add_empty_vial :: "board \<Rightarrow> (error + board) option" where
  "add_empty_vial b = apply_action b AddEmptyVialAction"

subsection \<open>\<open>Board.is_solved\<close>\<close>

text \<open>The inner loop \<open>for elem in vial: if elem != first_elem: return False\<close>.\<close>

fun all_first_elem :: "int \<Rightarrow> vial \<Rightarrow> bool" where
  "all_first_elem first_elem [] = True"
| "all_first_elem first_elem (elem # rest) =
     (if elem \<noteq> first_elem then False else all_first_elem first_elem rest)"

fun vials_solved :: "json \<Rightarrow> vial list \<Rightarrow> bool" where
  "vials_solved vsize [] = True"
| "vials_solved vsize (v # rest) =
     (if length v = 0 then vials_solved vsize rest
      else if len_ne (length v) vsize then False
      else if \<not> all_first_elem (hd v) v then False
      else vials_solved vsize rest)"

definition is_solved :: "board \<Rightarrow> bool" where
  "is_solved b = vials_solved (vial_size b) (vials b)"

subsection \<open>Sequences of calls on a board\<close>

text \<open>
  A caller's sequence of calls of the three mutating methods of \<open>Board\<close>, run in order:
  a call that raises ends the run with its error, a call that never returns leaves the
  run without a result.
\<close>

datatype call = Pour int int | AddEmptyVial | Undo

fun call_board :: "board \<Rightarrow> call \<Rightarrow> (error + board) option" where
  "call_board b (Pour fi ti) = pour b fi ti"
| "call_board b AddEmptyVial = add_empty_vial b"
| "call_board b Undo = Some (undo b)"

fun run_calls :: "board \<Rightarrow> call list \<Rightarrow> (error + board) option" where
  "run_calls b [] = Some (Inr b)"
| "run_calls b (c # cs) =
     (case call_board b c of
        None \<Rightarrow> None
      | Some (Inl e) \<Rightarrow> Some (Inl e)
      | Some (Inr b') \<Rightarrow> run_calls b' cs)"

subsection \<open>\<open>load_board\<close>\<close>

text \<open>
  \<open>key in data\<close>: a key of a dict, an element of a list, a substring of a string;
  TypeError for \<open>None\<close>, a boolean and a number.
\<close>

fun py_in :: "string \<Rightarrow> json \<Rightarrow> error + bool" where
  "py_in k (JObj kvs) = Inr (map_of kvs k \<noteq> None)"
| "py_in k (JArr xs) = Inr (JStr k \<in> set xs)"
| "py_in k (JStr s) = Inr (sublist k s)"
| "py_in k _ = Inl TypeError"

text \<open>
  \<open>data[key]\<close> for a string key that \<open>key in data\<close> has found: the value of a dict;
  TypeError for a list and for a string, whose indices must be integers.
\<close>

fun py_getitem :: "json \<Rightarrow> string \<Rightarrow> error + json" where
  "py_getitem (JObj kvs) k = (case map_of kvs k of None \<Rightarrow> Inl KeyError | Some v \<Rightarrow> Inr v)"
| "py_getitem _ k = Inl TypeError"

text \<open>
  \<open>isinstance(unit, int)\<close> holds of a JSON integer and, \<open>bool\<close> being a subclass of
  \<open>int\<close>, of a JSON boolean, which then counts as \<open>1\<close> or \<open>0\<close>.
\<close>

fun unit_of :: "json \<Rightarrow> int option" where
  "unit_of (JInt n) = Some n"
| "unit_of (JBool t) = Some (if t then 1 else 0)"
| "unit_of _ = None"

fun check_units :: "json list \<Rightarrow> error + vial" where
  \<open>check_units [] = Inr []\<close>
| \<open>check_units (unit # rest) =
     (case unit_of unit of
        None \<Rightarrow> Inl (ValueError ''Every element in every vial must be an integer.'')
      | Some u \<Rightarrow>
          (case check_units rest of Inl e \<Rightarrow> Inl e | Inr us \<Rightarrow> Inr (u # us)))\<close>

fun check_vials :: "json \<Rightarrow> json list \<Rightarrow> error + vial list" where
  \<open>check_vials vsize [] = Inr []\<close>
| \<open>check_vials vsize (vial # rest) =
     (case vial of
        JArr units \<Rightarrow>
          (case len_gt (length units) vsize of
             Inl e \<Rightarrow> Inl e
           | Inr True \<Rightarrow> Inl (ValueError ''Vial contains too many units'')
           | Inr False \<Rightarrow>
               (case check_units units of
                  Inl e \<Rightarrow> Inl e
                | Inr v \<Rightarrow>
                    (case check_vials vsize rest of
                       Inl e \<Rightarrow> Inl e
                     | Inr vs \<Rightarrow> Inr (v # vs))))
      | _ \<Rightarrow> Inl (ValueError ''Every element in "vials" must be an array.''))\<close>

text \<open>
  The argument is the outcome of \<open>json.loads(line)\<close>: the value it returns, or the
  message of the ValueError it raises, which \<open>load_board\<close> quotes in its own.
\<close>

definition load_board :: "string + json \<Rightarrow> error + board" where
  \<open>load_board parsed =
     (case parsed of
        Inl e \<Rightarrow> Inl (ValueError (''Invalid JSON ('' @ e @ '')''))
      | Inr data \<Rightarrow>
     (case py_in ''vial_size'' data of
        Inl e \<Rightarrow> Inl e
      | Inr False \<Rightarrow> Inl (ValueError ''Key "vial_size" is required'')
      | Inr True \<Rightarrow>
     (case py_getitem data ''vial_size'' of
        Inl e \<Rightarrow> Inl e
      | Inr vsize \<Rightarrow>
     (case py_in ''vials'' data of
        Inl e \<Rightarrow> Inl e
      | Inr False \<Rightarrow> Inl (ValueError ''Key "vials" is required'')
      | Inr True \<Rightarrow>
     (case py_getitem data ''vials'' of
        Inl e \<Rightarrow> Inl e
      | Inr (JArr vs) \<Rightarrow>
          (case check_vials vsize vs of
             Inl e \<Rightarrow> Inl e
           | Inr checked \<Rightarrow> Inr (Board_init vsize checked))
      | Inr _ \<Rightarrow> Inl (ValueError ''Key "vials" must be an array''))))))\<close>

subsection \<open>What \<open>load_board\<close> accepts\<close>


definition units_of :: "json list \<Rightarrow> vial" where
  "units_of us = map (\<lambda>u. case unit_of u of Some n \<Rightarrow> n | None \<Rightarrow> 0) us"



subsection \<open>The greedy pour in closed form\<close>

text \<open>
  The glossary's pour: the maximal run of units of one colour at the top of the source,
  bounded by the capacity of the destination. \<open>pour_count vsize run n\<close> is how many
  units of a run of \<open>run\<close> a destination of length \<open>n\<close> takes while its length is below
  \<open>vsize\<close>; for an integer \<open>vsize\<close> that is the smaller of the run and the free capacity
  (\<open>pour_count_int\<close> below).
\<close>

definition top_run :: "int \<Rightarrow> vial \<Rightarrow> nat" where
  "top_run c v = length (takeWhile (\<lambda>x. x = c) (rev v))"

fun pour_count :: "json \<Rightarrow> nat \<Rightarrow> nat \<Rightarrow> nat" where
  "pour_count vsize 0 n = 0"
| "pour_count vsize (Suc run) n =
     (if len_lt n vsize = Inr True then Suc (pour_count vsize run (Suc n)) else 0)"

definition pour_qty :: "board \<Rightarrow> nat \<Rightarrow> nat \<Rightarrow> nat" where
  "pour_qty b i j =
     (if vials b ! i = [] then 0
      else if vials b ! j \<noteq> [] \<and> last (vials b ! j) \<noteq> last (vials b ! i) then 0
      else pour_count (vial_size b) (top_run (last (vials b ! i)) (vials b ! i))
             (length (vials b ! j)))"

definition poured :: "vial list \<Rightarrow> nat \<Rightarrow> nat \<Rightarrow> nat \<Rightarrow> vial list" where
  "poured vs i j k =
     vs[i := take (length (vs ! i) - k) (vs ! i),
        j := vs ! j @ replicate k (last (vs ! i))]"

subsection \<open>Invariants\<close>



definition units :: "board \<Rightarrow> int multiset" where
  "units b = mset (concat (vials b))"

definition vial_solved :: "json \<Rightarrow> vial \<Rightarrow> bool" where
  "vial_solved vsize v =
     (v = [] \<or> (\<not> len_ne (length v) vsize \<and> list_all (\<lambda>x. x = hd v) v))"

subsection \<open>Undoing everything\<close>

text \<open>Calling \<open>Board.undo\<close> until the history is empty.\<close>

function undo_all :: "board \<Rightarrow> error + board" where
  "undo_all b =
     (if history b = [] then Inr b
      else case undo b of Inl e \<Rightarrow> Inl e | Inr b' \<Rightarrow> undo_all b')"
  by pat_completeness auto
termination
proof (relation "measure (\<lambda>b. length (history b))")
  show "wf (measure (\<lambda>b. length (history b)))" by simp
next
  fix b :: board and b'
  assume "history b \<noteq> []" "undo b = Inr b'"
  then have "history b' = butlast (history b)"
    by (cases "last (history b)")
      (auto simp: undo_def Let_def PourAction_undo_def AddEmptyVialAction_undo_def
        split: if_splits sum.splits)
  with \<open>history b \<noteq> []\<close> show "(b', b) \<in> measure (\<lambda>b. length (history b))"
    by simp
qed

declare undo_all.simps [simp del]

subsection \<open>A sound history\<close>



section \<open>Properties\<close>

subsection \<open>Indexing and the pour loop\<close>

lemma top_run_Nil: "top_run c [] = 0"
  by (simp add: top_run_def)

lemma top_run_snoc: "top_run c (xs @ [x]) = (if x = c then Suc (top_run c xs) else 0)"
  by (simp add: top_run_def)

lemma top_run_le: "top_run c v \<le> length v"
  unfolding top_run_def by (metis length_rev length_takeWhile_le)

lemma top_run_tail:
  "k \<le> top_run c v \<Longrightarrow> take (length v - k) v @ replicate k c = v"
proof (induction v arbitrary: k rule: rev_induct)
  case Nil
  then show ?case by (simp add: top_run_Nil)
next
  case (snoc x xs)
  show ?case
  proof (cases k)
    case 0
    then show ?thesis by simp
  next
    case (Suc k')
    with snoc.prems have xc: "x = c" and k': "k' \<le> top_run c xs"
      by (auto simp: top_run_snoc split: if_splits)
    have "k' \<le> length xs" using k' top_run_le[of c xs] by simp
    have "take (length xs - k') xs @ replicate k' c = xs"
      using snoc.IH[OF k'] .
    then have "(take (length xs - k') xs @ replicate k' c) @ [c] = xs @ [c]"
      by simp
    then show ?thesis using Suc xc \<open>k' \<le> length xs\<close>
      by (simp add: replicate_append_same)
  qed
qed

lemma list_index_less: "list_index xs i = Inr n \<Longrightarrow> n < length xs"
  by (auto simp: list_index_def Let_def split: if_splits)

lemma list_index_same_length: "length xs = length ys \<Longrightarrow> list_index xs i = list_index ys i"
  by (simp add: list_index_def)

lemma move_top_same: "i < length vs \<Longrightarrow> vs ! i \<noteq> [] \<Longrightarrow> move_top i i vs = vs"
  by (simp add: move_top_def)

lemma poured_0: "poured vs i j 0 = vs"
  by (simp add: poured_def)

lemma length_poured: "length (poured vs i j k) = length vs"
  by (simp add: poured_def)

lemma is_number_len_lt: "is_number vsize \<Longrightarrow> \<exists>t. len_lt n vsize = Inr t"
proof (cases vsize)
  case (JFloat f)
  then show ?thesis by (cases f) auto
qed simp_all

lemma not_number_len_lt: "\<not> is_number vsize \<Longrightarrow> len_lt n vsize = Inl TypeError"
  by (cases vsize) simp_all

lemma pour_count_le: "pour_count vsize run n \<le> run"
  by (induction run arbitrary: n) simp_all

lemma pour_count_int: "pour_count (JInt m) run n = min run (nat (m - int n))"
proof (induction run arbitrary: n)
  case 0
  then show ?case by simp
next
  case (Suc run)
  show ?case
  proof (cases "int n < m")
    case True
    then have "nat (m - int n) = Suc (nat (m - int (Suc n)))" by (simp add: nat_eq_iff)
    then show ?thesis using True Suc by simp
  next
    case False
    then show ?thesis by simp
  qed
qed

lemma pour_loop_distinct:
  assumes "i \<noteq> j" "i < length vs" "j < length vs" "is_number vsize"
  shows "pour_loop vsize c i j vs q =
           Some (Inr (vs[i := take (length (vs ! i)
                           - pour_count vsize (top_run c (vs ! i)) (length (vs ! j))) (vs ! i),
                         j := vs ! j @ replicate
                           (pour_count vsize (top_run c (vs ! i)) (length (vs ! j))) c],
                      q + pour_count vsize (top_run c (vs ! i)) (length (vs ! j))))"
  using assms(1,2,3)
proof (induction n \<equiv> "length (vs ! i)" arbitrary: vs q)
  case 0
  then have e: "vs ! i = []" by simp
  have "vs[i := vs ! i, j := vs ! j] = vs" by simp
  then have "vs[i := [], j := vs ! j] = vs" using e by simp
  then show ?case using e
    by (subst pour_loop.simps) (simp add: top_run_Nil)
next
  case (Suc n)
  let ?src = "vs ! i" and ?dst = "vs ! j"
  from Suc.hyps(2) have ne: "?src \<noteq> []" by auto
  then have src: "?src = butlast ?src @ [last ?src]" by simp
  have id: "vs[i := ?src, j := ?dst] = vs" by simp
  from is_number_len_lt[OF assms(4)] obtain t where t: "len_lt (length ?dst) vsize = Inr t"
    by blast
  show ?case
  proof (cases "last ?src = c \<and> t")
    case False
    have "top_run c ?src = 0 \<or> (\<exists>r. top_run c ?src = Suc r \<and> \<not> t)"
      using False src top_run_snoc[of c "butlast ?src" "last ?src"] by auto
    then have k: "pour_count vsize (top_run c ?src) (length ?dst) = 0"
      using t by auto
    have "pour_loop vsize c i j vs q = Some (Inr (vs, q))"
      using False t by (subst pour_loop.simps) auto
    then show ?thesis unfolding k using id by simp
  next
    case True
    let ?vs' = "move_top i j vs"
    have vs': "?vs' = vs[j := ?dst @ [c], i := butlast ?src]"
      using True Suc.prems by (simp add: move_top_def Let_def)
    have i': "?vs' ! i = butlast ?src" and j': "?vs' ! j = ?dst @ [c]"
      using Suc.prems by (simp_all add: vs')
    have len: "n = length (?vs' ! i)" using Suc.hyps(2) i' by simp
    have lens: "i < length ?vs'" "j < length ?vs'" using Suc.prems by (simp_all add: vs')
    let ?k' = "pour_count vsize (top_run c (butlast ?src)) (Suc (length ?dst))"
    have IH: "pour_loop vsize c i j ?vs' (q + 1) =
        Some (Inr (?vs'[i := take (length (butlast ?src) - ?k') (butlast ?src),
                 j := (?dst @ [c]) @ replicate ?k' c],
              (q + 1) + ?k'))"
      using Suc.hyps(1)[OF len Suc.prems(1) lens] unfolding i' j' by simp
    have tr: "top_run c ?src = Suc (top_run c (butlast ?src))"
      using src True top_run_snoc[of c "butlast ?src" "last ?src"] by simp
    have k: "pour_count vsize (top_run c ?src) (length ?dst) = Suc ?k'"
      unfolding tr using t True by simp
    have "?k' \<le> length (butlast ?src)"
      using top_run_le[of c "butlast ?src"] pour_count_le[of vsize "top_run c (butlast ?src)"]
      by (meson le_trans)
    then have tk: "take (length (butlast ?src) - ?k') (butlast ?src) = take (length ?src - Suc ?k') ?src"
      using ne by (simp add: take_butlast)
    have "pour_loop vsize c i j vs q = pour_loop vsize c i j ?vs' (q + 1)"
      using True ne t by (subst pour_loop.simps) simp
    also have "\<dots> = Some (Inr (vs[i := take (length ?src - Suc ?k') ?src,
              j := ?dst @ replicate (Suc ?k') c], q + Suc ?k'))"
      unfolding IH tk using Suc.prems
      by (simp add: vs' list_update_swap[of i j] replicate_append_same)
    finally show ?thesis unfolding k .
  qed
qed

lemma pour_loop_not_number:
  assumes "\<not> is_number vsize" "vs ! i \<noteq> []" "last (vs ! i) = c"
  shows "pour_loop vsize c i j vs q = Some (Inl TypeError)"
  using assms not_number_len_lt[OF assms(1)] by (subst pour_loop.simps) simp

lemma pour_loop_stuck:
  assumes "pour_loop vsize c i j vs q = Some r"
  shows "\<not> (i = j \<and> i < length vs \<and> vs ! i \<noteq> [] \<and> last (vs ! i) = c
          \<and> len_lt (length (vs ! i)) vsize = Inr True)"
proof (rule pour_loop.raw_induct[where P = "\<lambda>vsize c i j vs q r.
          \<not> (i = j \<and> i < length vs \<and> vs ! i \<noteq> [] \<and> last (vs ! i) = c
          \<and> len_lt (length (vs ! i)) vsize = Inr True)", OF _ assms])
  fix f vsize c i j vs q and r :: "error + vial list \<times> nat"
  assume IH: "\<And>vsize c i j vs q r. f vsize c i j vs q = Some r \<Longrightarrow>
          \<not> (i = j \<and> i < length vs \<and> vs ! i \<noteq> [] \<and> last (vs ! i) = c
          \<and> len_lt (length (vs ! i)) vsize = Inr True)"
    and body: "(if 0 < length (vs ! i) \<and> last (vs ! i) = c
          then (case len_lt (length (vs ! j)) vsize of
                  Inl e \<Rightarrow> Some (Inl e)
                | Inr below \<Rightarrow>
                    if below then f vsize c i j (move_top i j vs) (q + 1)
                    else Some (Inr (vs, q)))
          else Some (Inr (vs, q))) = Some r"
  show "\<not> (i = j \<and> i < length vs \<and> vs ! i \<noteq> [] \<and> last (vs ! i) = c
          \<and> len_lt (length (vs ! i)) vsize = Inr True)"
  proof
    assume A: "i = j \<and> i < length vs \<and> vs ! i \<noteq> [] \<and> last (vs ! i) = c
          \<and> len_lt (length (vs ! i)) vsize = Inr True"
    then have e: "j = i" and l: "i < length vs" and ne: "vs ! i \<noteq> []"
      and c: "last (vs ! i) = c" and sz: "len_lt (length (vs ! i)) vsize = Inr True"
      by blast+
    have mt: "move_top i i vs = vs" by (rule move_top_same[OF l ne])
    from body have "f vsize c i i vs (q + 1) = Some r"
      unfolding e mt using ne c sz by simp
    from IH[OF this] l ne c sz show False by blast
  qed
qed

lemma pour_loop_same_diverges:
  assumes "i < length vs" "vs ! i \<noteq> []" "last (vs ! i) = c"
    and "len_lt (length (vs ! i)) vsize = Inr True"
  shows "pour_loop vsize c i i vs q = None"
proof (cases "pour_loop vsize c i i vs q")
  case None
  then show ?thesis .
next
  case (Some r)
  from pour_loop_stuck[OF Some] assms show ?thesis by simp
qed

lemma pour_qty_le_run: "pour_qty b i j \<le> top_run (last (vials b ! i)) (vials b ! i)"
  by (simp add: pour_qty_def pour_count_le)

lemma PourAction_apply_early:
  assumes "list_index (vials b) fi = Inr i" "list_index (vials b) ti = Inr j"
    and "vials b ! i = [] \<or> (vials b ! j \<noteq> [] \<and> last (vials b ! j) \<noteq> last (vials b ! i))"
  shows "PourAction_apply (PourAction_init fi ti) b =
           Some (Inr (False,
                      \<lparr>from_index = fi, to_index = ti, qty_moved = 0, applied = True\<rparr>, b))"
    and "pour_qty b i j = 0"
  using assms by (auto simp: PourAction_apply_def PourAction_init_def pour_qty_def Let_def)

lemma PourAction_apply_not_number:
  assumes "list_index (vials b) fi = Inr i" "list_index (vials b) ti = Inr j"
    and "\<not> (vials b ! i = [] \<or> (vials b ! j \<noteq> [] \<and> last (vials b ! j) \<noteq> last (vials b ! i)))"
    and "\<not> is_number (vial_size b)"
  shows "PourAction_apply (PourAction_init fi ti) b = Some (Inl TypeError)"
proof -
  from assms(3) have ne: "vials b ! i \<noteq> []"
    and ok: "\<not> (0 < length (vials b ! j) \<and> last (vials b ! j) \<noteq> last (vials b ! i))"
    by auto
  show ?thesis using ne assms(1,2)
    by (simp add: PourAction_apply_def PourAction_init_def Let_def if_not_P[OF ok]
          pour_loop_not_number[OF assms(4) ne refl] del: length_greater_0_conv)
qed

lemma PourAction_apply_distinct:
  assumes "list_index (vials b) fi = Inr i" "list_index (vials b) ti = Inr j" "i \<noteq> j"
    and "is_number (vial_size b)"
  shows "PourAction_apply (PourAction_init fi ti) b =
           Some (Inr (0 < pour_qty b i j,
                      \<lparr>from_index = fi, to_index = ti, qty_moved = pour_qty b i j, applied = True\<rparr>,
                      b\<lparr>vials := poured (vials b) i j (pour_qty b i j)\<rparr>))"
proof -
  have il: "i < length (vials b)" and jl: "j < length (vials b)"
    using assms list_index_less by blast+
  show ?thesis
  proof (cases "vials b ! i = [] \<or> (vials b ! j \<noteq> [] \<and> last (vials b ! j) \<noteq> last (vials b ! i))")
    case True
    from PourAction_apply_early[OF assms(1,2) True] show ?thesis by (simp add: poured_0)
  next
    case False
    then have q: "pour_qty b i j =
        pour_count (vial_size b) (top_run (last (vials b ! i)) (vials b ! i)) (length (vials b ! j))"
      by (auto simp: pour_qty_def)
    from False have ne: "vials b ! i \<noteq> []"
      and ok: "\<not> (0 < length (vials b ! j) \<and> last (vials b ! j) \<noteq> last (vials b ! i))"
      by auto
    show ?thesis using ne assms(1,2)
      by (simp add: PourAction_apply_def PourAction_init_def Let_def if_not_P[OF ok]
            pour_loop_distinct[OF assms(3) il jl assms(4)] q poured_def
            del: length_greater_0_conv)
  qed
qed

lemma PourAction_apply_same:
  assumes "list_index (vials b) fi = Inr i" "list_index (vials b) ti = Inr i"
    and "vials b ! i \<noteq> []"
  shows "len_lt (length (vials b ! i)) (vial_size b) = Inr True \<Longrightarrow>
           PourAction_apply (PourAction_init fi ti) b = None"
    and "len_lt (length (vials b ! i)) (vial_size b) = Inr False \<Longrightarrow>
           PourAction_apply (PourAction_init fi ti) b =
             Some (Inr (False,
                        \<lparr>from_index = fi, to_index = ti, qty_moved = 0, applied = True\<rparr>, b))"
    and "len_lt (length (vials b ! i)) (vial_size b) = Inr False \<Longrightarrow> pour_qty b i i = 0"
proof -
  have il: "i < length (vials b)" using assms list_index_less by blast
  {
    assume t: "len_lt (length (vials b ! i)) (vial_size b) = Inr True"
    have "pour_loop (vial_size b) (last (vials b ! i)) i i (vials b) 0 = None"
      by (rule pour_loop_same_diverges[OF il assms(3) refl t])
    then show "PourAction_apply (PourAction_init fi ti) b = None"
      using assms by (simp add: PourAction_apply_def PourAction_init_def Let_def)
  }
  {
    assume f: "len_lt (length (vials b ! i)) (vial_size b) = Inr False"
    have "pour_loop (vial_size b) (last (vials b ! i)) i i (vials b) 0 = Some (Inr (vials b, 0))"
      using f assms(3) by (subst pour_loop.simps) simp
    then show "PourAction_apply (PourAction_init fi ti) b =
             Some (Inr (False,
                        \<lparr>from_index = fi, to_index = ti, qty_moved = 0, applied = True\<rparr>, b))"
      using assms by (simp add: PourAction_apply_def PourAction_init_def Let_def)
    obtain r where "top_run (last (vials b ! i)) (vials b ! i) = Suc r \<or>
        top_run (last (vials b ! i)) (vials b ! i) = 0"
      by (cases "top_run (last (vials b ! i)) (vials b ! i)") auto
    then show "pour_qty b i i = 0" using f by (auto simp: pour_qty_def)
  }
qed

lemma PourAction_apply_result:
  assumes "PourAction_apply (PourAction_init fi ti) b = Some (Inr (r, a', b'))"
  shows "\<exists>i j. list_index (vials b) fi = Inr i \<and> list_index (vials b) ti = Inr j
           \<and> (0 < pour_qty b i j \<longrightarrow> i \<noteq> j)
           \<and> r = (0 < pour_qty b i j)
           \<and> a' = \<lparr>from_index = fi, to_index = ti, qty_moved = pour_qty b i j, applied = True\<rparr>
           \<and> b' = b\<lparr>vials := poured (vials b) i j (pour_qty b i j)\<rparr>"
proof -
  from assms obtain i where i: "list_index (vials b) fi = Inr i"
    by (cases "list_index (vials b) fi") (auto simp: PourAction_apply_def PourAction_init_def)
  from assms i obtain j where j: "list_index (vials b) ti = Inr j"
    by (cases "list_index (vials b) ti") (auto simp: PourAction_apply_def PourAction_init_def)
  let ?early = "vials b ! i = [] \<or> (vials b ! j \<noteq> [] \<and> last (vials b ! j) \<noteq> last (vials b ! i))"
  have res: "PourAction_apply (PourAction_init fi ti) b =
      Some (Inr (0 < pour_qty b i j,
                 \<lparr>from_index = fi, to_index = ti, qty_moved = pour_qty b i j, applied = True\<rparr>,
                 b\<lparr>vials := poured (vials b) i j (pour_qty b i j)\<rparr>))
      \<and> (0 < pour_qty b i j \<longrightarrow> i \<noteq> j)"
  proof (cases ?early)
    case True
    from PourAction_apply_early[OF i j True] show ?thesis by (simp add: poured_0)
  next
    case False
    have num: "is_number (vial_size b)"
      using PourAction_apply_not_number[OF i j False] assms by auto
    show ?thesis
    proof (cases "i = j")
      case ne: False
      from PourAction_apply_distinct[OF i j ne num] ne show ?thesis by simp
    next
      case True
      from False have nonempty: "vials b ! i \<noteq> []" by simp
      from is_number_len_lt[OF num] obtain t
        where t: "len_lt (length (vials b ! i)) (vial_size b) = Inr t" by blast
      have j': "list_index (vials b) ti = Inr i" using j True by simp
      show ?thesis
      proof (cases t)
        case True
        with PourAction_apply_same(1)[OF i j' nonempty] t assms show ?thesis by simp
      next
        case False
        with PourAction_apply_same(2,3)[OF i j' nonempty] t \<open>i = j\<close> show ?thesis
          by (simp add: poured_0)
      qed
    qed
  qed
  with assms i j show ?thesis by auto
qed

lemma undo_loop_distinct:
  assumes "i \<noteq> j" "i < length vs" "j < length vs" "k \<le> length (vs ! j)"
  shows "undo_loop i j k vs =
           Inr (vs[i := vs ! i @ rev (drop (length (vs ! j) - k) (vs ! j)),
                   j := take (length (vs ! j) - k) (vs ! j)])"
  using assms
proof (induction k arbitrary: vs)
  case 0
  have "vs[i := vs ! i, j := vs ! j] = vs" by simp
  then show ?case by simp
next
  case (Suc k)
  let ?l = "vs ! j"
  let ?vs' = "vs[j := butlast ?l, i := vs ! i @ [last ?l]]"
  from Suc.prems have ne: "?l \<noteq> []" by auto
  have i': "?vs' ! i = vs ! i @ [last ?l]" and j': "?vs' ! j = butlast ?l"
    using Suc.prems by simp_all
  have k: "k \<le> length (?vs' ! j)" using Suc.prems j' by simp
  have lens: "i < length ?vs'" "j < length ?vs'" using Suc.prems by simp_all
  have m: "length ?l - Suc k < length ?l" using ne by simp
  have dr: "drop (length ?l - Suc k) ?l = drop (length ?l - Suc k) (butlast ?l) @ [last ?l]"
  proof -
    have "drop (length ?l - Suc k) (butlast ?l @ [last ?l]) =
        drop (length ?l - Suc k) (butlast ?l) @ [last ?l]"
      using m by simp
    then show ?thesis using ne by simp
  qed
  have tk: "take (length ?l - Suc k) (butlast ?l) = take (length ?l - Suc k) ?l"
    using m by (simp add: take_butlast)
  have "undo_loop i j (Suc k) vs = undo_loop i j k ?vs'"
    using ne Suc.prems by (simp add: Let_def)
  also have "\<dots> = Inr (?vs'[i := ?vs' ! i @ rev (drop (length (?vs' ! j) - k) (?vs' ! j)),
                   j := take (length (?vs' ! j) - k) (?vs' ! j)])"
    by (rule Suc.IH[OF Suc.prems(1) lens k])
  also have "\<dots> = Inr (vs[i := vs ! i @ rev (drop (length ?l - Suc k) ?l),
                   j := take (length ?l - Suc k) ?l])"
    unfolding i' j' using Suc.prems(1) by (simp add: dr tk list_update_swap[of i j])
  finally show ?case .
qed

lemma undo_loop_poured:
  assumes "i \<noteq> j" "i < length vs" "j < length vs" "k \<le> top_run (last (vs ! i)) (vs ! i)"
  shows "undo_loop i j k (poured vs i j k) = Inr vs"
proof -
  let ?p = "poured vs i j k"
  have pi: "?p ! i = take (length (vs ! i) - k) (vs ! i)"
    and pj: "?p ! j = vs ! j @ replicate k (last (vs ! i))"
    using assms by (simp_all add: poured_def)
  have "undo_loop i j k ?p =
      Inr (?p[i := ?p ! i @ rev (drop (length (?p ! j) - k) (?p ! j)),
              j := take (length (?p ! j) - k) (?p ! j)])"
    using assms by (intro undo_loop_distinct) (simp_all add: length_poured pj)
  also have "\<dots> = Inr (vs[i := vs ! i, j := vs ! j])"
    unfolding pi pj using assms(1) top_run_tail[OF assms(4)]
    by (simp add: poured_def list_update_swap[of i j])
  finally show ?thesis by simp
qed

lemma PourAction_undo_poured:
  assumes "list_index (vials b) fi = Inr i" "list_index (vials b) ti = Inr j"
    and "0 < k \<longrightarrow> i \<noteq> j" "k \<le> top_run (last (vials b ! i)) (vials b ! i)"
  shows "PourAction_undo \<lparr>from_index = fi, to_index = ti, qty_moved = k, applied = True\<rparr>
           (b\<lparr>vials := poured (vials b) i j k\<rparr>) = Inr b"
proof -
  have il: "i < length (vials b)" and jl: "j < length (vials b)"
    using assms list_index_less by blast+
  have idx: "list_index (poured (vials b) i j k) fi = Inr i"
       "list_index (poured (vials b) i j k) ti = Inr j"
    using assms(1,2) list_index_same_length[OF length_poured] by simp_all
  have "undo_loop i j k (poured (vials b) i j k) = Inr (vials b)"
  proof (cases "k = 0")
    case True
    then show ?thesis by (simp add: poured_0)
  next
    case False
    with assms(3) have "i \<noteq> j" by simp
    then show ?thesis using il jl assms(4) by (rule undo_loop_poured)
  qed
  then show ?thesis by (simp add: PourAction_undo_def idx)
qed

subsection \<open>Solved boards\<close>

lemma all_first_elem_iff: "all_first_elem f v = list_all (\<lambda>x. x = f) v"
  by (induction v) auto

lemma vials_solved_iff: "vials_solved vsize vs = list_all (vial_solved vsize) vs"
  by (induction vs) (auto simp: vial_solved_def all_first_elem_iff)

lemma all_equal_hd: "v \<noteq> [] \<Longrightarrow> list_all (\<lambda>x. x = hd v) v = (\<forall>x\<in>set v. \<forall>y\<in>set v. x = y)"
proof -
  assume "v \<noteq> []"
  then have "hd v \<in> set v" by simp
  then show ?thesis unfolding list_all_iff by metis
qed

text \<open>
  Claim C5: \<open>Board.is_solved\<close> returns true exactly when every vial is empty or has
  length \<open>vial_size\<close> (Python's \<open>len(vial) == vial_size\<close>; for an integer \<open>vial_size\<close>,
  equality of integers) with all its units equal; a board with no vials is solved.
\<close>

theorem is_solved_iff:
  "(is_solved b \<longleftrightarrow>
      (\<forall>v\<in>set (vials b). v = [] \<or>
          (\<not> len_ne (length v) (vial_size b) \<and> (\<forall>x\<in>set v. \<forall>y\<in>set v. x = y))))
   \<and> (vial_size b = JInt m \<longrightarrow>
        (is_solved b \<longleftrightarrow>
          (\<forall>v\<in>set (vials b). v = [] \<or>
              (int (length v) = m \<and> (\<forall>x\<in>set v. \<forall>y\<in>set v. x = y)))))
   \<and> (vials b = [] \<longrightarrow> is_solved b)"
proof -
  have "vial_solved (vial_size b) v \<longleftrightarrow>
      (v = [] \<or> (\<not> len_ne (length v) (vial_size b) \<and> (\<forall>x\<in>set v. \<forall>y\<in>set v. x = y)))" for v
    using all_equal_hd[of v] by (auto simp: vial_solved_def)
  then have gen: "is_solved b \<longleftrightarrow>
      (\<forall>v\<in>set (vials b). v = [] \<or>
          (\<not> len_ne (length v) (vial_size b) \<and> (\<forall>x\<in>set v. \<forall>y\<in>set v. x = y)))"
    by (simp add: is_solved_def vials_solved_iff list_all_iff)
  have "is_solved b \<longleftrightarrow>
          (\<forall>v\<in>set (vials b). v = [] \<or>
              (int (length v) = m \<and> (\<forall>x\<in>set v. \<forall>y\<in>set v. x = y)))"
    if "vial_size b = JInt m"
    unfolding gen that by simp
  then show ?thesis using gen by (simp add: is_solved_def)
qed

text \<open>
  The scenario \<open>vial_size = 3\<close>, vials \<open>[[5,5,5]]\<close> of the specification is solved, also
  with an empty vial beside it; a vial that is not full, or full of two colours, is not.
\<close>

theorem is_solved_iff_witness:
  "vial_size (Board_init (JInt 3) [[5, 5, 5], []]) = JInt 3
   \<and> is_solved (Board_init (JInt 3) [[5, 5, 5], []])
   \<and> \<not> is_solved (Board_init (JInt 3) [[5, 5]])
   \<and> \<not> is_solved (Board_init (JInt 2) [[5, 4]]) \<and> is_solved (Board_init (JInt 4) [])"
  using is_solved_iff[of "Board_init (JInt 3) [[5, 5, 5], []]" 3]
    is_solved_iff[of "Board_init (JInt 3) [[5, 5]]" 3]
    is_solved_iff[of "Board_init (JInt 2) [[5, 4]]" 2] is_solved_iff[of "Board_init (JInt 4) []" 4]
  by (simp add: Board_init_def)

subsection \<open>Undo before apply\<close>

text \<open>
  Claim C7: \<open>undo\<close> of a pour action whose \<open>apply\<close> was never invoked (its \<open>_applied\<close>
  flag is still false) raises \<open>ValueError('Action not yet applied')\<close>.
\<close>

theorem undo_before_apply_raises:
  "\<not> applied a \<Longrightarrow> PourAction_undo a b = Inl (ValueError ''Action not yet applied'')"
  by (simp add: PourAction_undo_def)

theorem undo_before_apply_raises_witness:
  "\<not> applied (PourAction_init 0 1)
   \<and> PourAction_undo (PourAction_init 0 1) (Board_init (JInt 4) [[1, 1], [1], []])
       = Inl (ValueError ''Action not yet applied'')"
  using undo_before_apply_raises[of "PourAction_init 0 1" "Board_init (JInt 4) [[1, 1], [1], []]"]
  by (simp add: PourAction_init_def)

subsection \<open>Apply then undo\<close>

text \<open>
  Claim C2: when \<open>apply\<close> of a freshly built pour action returned true, its \<open>undo\<close>
  invoked next returns and gives back the board as it was before the \<open>apply\<close>, every
  vial with exactly the sequence it held.
\<close>

theorem pour_apply_then_undo:
  assumes "PourAction_apply (PourAction_init fi ti) b = Some (Inr (True, a', b'))"
  shows "PourAction_undo a' b' = Inr b"
proof -
  from PourAction_apply_result[OF assms] obtain i j where
    i: "list_index (vials b) fi = Inr i" and j: "list_index (vials b) ti = Inr j"
    and d: "0 < pour_qty b i j \<longrightarrow> i \<noteq> j"
    and a': "a' = \<lparr>from_index = fi, to_index = ti, qty_moved = pour_qty b i j, applied = True\<rparr>"
    and b': "b' = b\<lparr>vials := poured (vials b) i j (pour_qty b i j)\<rparr>"
    by auto
  show ?thesis unfolding a' b'
    by (rule PourAction_undo_poured[OF i j d pour_qty_le_run])
qed

lemma scenario_pour_0_2:
  "PourAction_apply (PourAction_init 0 2) (Board_init (JInt 4) [[1, 1], [1], []]) =
     Some (Inr (True, \<lparr>from_index = 0, to_index = 2, qty_moved = 2, applied = True\<rparr>,
                \<lparr>vial_size = JInt 4, vials = [[], [1], [1, 1]], history = []\<rparr>))"
  by (simp add: PourAction_apply_distinct[of _ _ 0 _ 2] is_number.simps list_index_def Board_init_def
      pour_qty_def pour_count_int top_run_def poured_def)

theorem pour_apply_then_undo_witness:
  "PourAction_apply (PourAction_init 0 2) (Board_init (JInt 4) [[1, 1], [1], []]) =
     Some (Inr (True, \<lparr>from_index = 0, to_index = 2, qty_moved = 2, applied = True\<rparr>,
                \<lparr>vial_size = JInt 4, vials = [[], [1], [1, 1]], history = []\<rparr>))
   \<and> PourAction_undo \<lparr>from_index = 0, to_index = 2, qty_moved = 2, applied = True\<rparr>
         \<lparr>vial_size = JInt 4, vials = [[], [1], [1, 1]], history = []\<rparr>
       = Inr (Board_init (JInt 4) [[1, 1], [1], []])"
  using scenario_pour_0_2 pour_apply_then_undo[OF scenario_pour_0_2] by simp

text \<open>
  Claim C10: when \<open>apply\<close> of a freshly built pour action returned false, the action
  is marked applied with a moved quantity of zero, and its \<open>undo\<close> does not raise and
  leaves the board as it is.
\<close>

theorem undo_after_noop_apply:
  assumes "PourAction_apply (PourAction_init fi ti) b = Some (Inr (False, a', b'))"
  shows "PourAction_undo a' b' = Inr b' \<and> applied a' \<and> qty_moved a' = 0"
proof -
  from PourAction_apply_result[OF assms] obtain i j where
    i: "list_index (vials b) fi = Inr i" and j: "list_index (vials b) ti = Inr j"
    and d: "0 < pour_qty b i j \<longrightarrow> i \<noteq> j"
    and r: "\<not> 0 < pour_qty b i j"
    and a': "a' = \<lparr>from_index = fi, to_index = ti, qty_moved = pour_qty b i j, applied = True\<rparr>"
    and b': "b' = b\<lparr>vials := poured (vials b) i j (pour_qty b i j)\<rparr>"
    by auto
  from r have q: "pour_qty b i j = 0" by simp
  have same: "b' = b" unfolding b' q by (simp add: poured_0)
  have "PourAction_undo a' b' = Inr b" unfolding a' b'
    by (rule PourAction_undo_poured[OF i j d pour_qty_le_run])
  then show ?thesis using same by (simp add: a' q)
qed

lemma scenario_unlike_pour:
  "PourAction_apply (PourAction_init 0 1) (Board_init (JInt 4) [[1, 1], [2], []]) =
     Some (Inr (False, \<lparr>from_index = 0, to_index = 1, qty_moved = 0, applied = True\<rparr>,
                Board_init (JInt 4) [[1, 1], [2], []]))"
  by (simp add: PourAction_apply_distinct[of _ _ 0 _ 1] is_number.simps list_index_def Board_init_def
      pour_qty_def pour_count_int top_run_def poured_def)

theorem undo_after_noop_apply_witness:
  "PourAction_apply (PourAction_init 0 1) (Board_init (JInt 4) [[1, 1], [2], []]) =
     Some (Inr (False, \<lparr>from_index = 0, to_index = 1, qty_moved = 0, applied = True\<rparr>,
                Board_init (JInt 4) [[1, 1], [2], []]))
   \<and> PourAction_undo \<lparr>from_index = 0, to_index = 1, qty_moved = 0, applied = True\<rparr>
         (Board_init (JInt 4) [[1, 1], [2], []])
       = Inr (Board_init (JInt 4) [[1, 1], [2], []])"
  using scenario_unlike_pour undo_after_noop_apply[OF scenario_unlike_pour] by simp

subsection \<open>Conservation of units\<close>

lemma mset_concat_update:
  "i < length vs \<Longrightarrow> mset (concat (vs[i := x])) + mset (vs ! i) = mset (concat vs) + mset x"
proof (induction vs arbitrary: i)
  case Nil
  then show ?case by simp
next
  case (Cons v vs)
  show ?case
  proof (cases i)
    case 0
    then show ?thesis by simp
  next
    case (Suc n)
    with Cons.prems have "n < length vs" by simp
    from Cons.IH[OF this] show ?thesis using Suc by (simp add: ac_simps)
  qed
qed

lemma mset_concat_move:
  assumes "i \<noteq> j" "i < length vs" "j < length vs"
    and "mset x + mset y = mset (vs ! i) + mset (vs ! j)"
  shows "mset (concat (vs[i := x, j := y])) = mset (concat vs)"
proof -
  let ?vs1 = "vs[i := x]"
  have 1: "mset (concat ?vs1) + mset (vs ! i) = mset (concat vs) + mset x"
    by (rule mset_concat_update[OF assms(2)])
  have "mset (concat (?vs1[j := y])) + mset (?vs1 ! j) = mset (concat ?vs1) + mset y"
    using assms(3) by (intro mset_concat_update) simp
  then have 2: "mset (concat (?vs1[j := y])) + mset (vs ! j) = mset (concat ?vs1) + mset y"
    using assms(1) by simp
  have "mset (concat (?vs1[j := y])) + (mset (vs ! i) + mset (vs ! j)) =
      mset (concat ?vs1) + mset (vs ! i) + mset y"
    using 2 by (simp add: ac_simps)
  also have "\<dots> = mset (concat vs) + (mset x + mset y)"
    using 1 by (simp add: ac_simps)
  finally show ?thesis using assms(4) by simp
qed

lemma units_poured:
  assumes "i \<noteq> j" "i < length vs" "j < length vs" "k \<le> top_run (last (vs ! i)) (vs ! i)"
  shows "mset (concat (poured vs i j k)) = mset (concat vs)"
proof -
  have "mset (take (length (vs ! i) - k) (vs ! i) @ replicate k (last (vs ! i))) = mset (vs ! i)"
    using top_run_tail[OF assms(4)] by simp
  then have "mset (take (length (vs ! i) - k) (vs ! i)) + mset (vs ! j @ replicate k (last (vs ! i)))
      = mset (vs ! i) + mset (vs ! j)"
    by (simp add: ac_simps)
  then show ?thesis unfolding poured_def
    by (rule mset_concat_move[OF assms(1,2,3)])
qed

lemma units_undo_loop:
  assumes "i \<noteq> j" "i < length vs" "j < length vs" "k \<le> length (vs ! j)"
  shows "\<exists>vs'. undo_loop i j k vs = Inr vs' \<and> mset (concat vs') = mset (concat vs)
           \<and> length vs' = length vs \<and> (\<forall>n. n \<noteq> i \<and> n \<noteq> j \<longrightarrow> vs' ! n = vs ! n)"
proof -
  let ?d = "drop (length (vs ! j) - k) (vs ! j)" and ?t = "take (length (vs ! j) - k) (vs ! j)"
  let ?vs' = "vs[i := vs ! i @ rev ?d, j := ?t]"
  have td: "mset ?t + mset ?d = mset (vs ! j)"
    by (metis append_take_drop_id mset_append)
  have "mset (vs ! i @ rev ?d) + mset ?t = mset (vs ! i) + (mset ?t + mset ?d)"
    by (simp add: ac_simps)
  then have "mset (vs ! i @ rev ?d) + mset ?t = mset (vs ! i) + mset (vs ! j)"
    unfolding td .
  then have "mset (concat ?vs') = mset (concat vs)"
    by (rule mset_concat_move[OF assms(1,2,3)])
  then show ?thesis
    using undo_loop_distinct[OF assms] by simp
qed

text \<open>
  Claim C9: for indices that name two different vials of a board whose \<open>vial_size\<close> is
  a number, \<open>PourAction.apply\<close> returns and keeps the multiset of all units of the
  board, the number of vials and every vial other than the two named; so does
  \<open>PourAction.undo\<close> of an applied action whose recorded quantity the destination vial
  holds (as it does after the \<open>apply\<close>), whatever \<open>vial_size\<close> is. On a board whose
  \<open>vial_size\<close> is not a number \<open>apply\<close> moves no unit either: it returns false with the
  board as it was, or raises TypeError at the first test of its loop.
\<close>

theorem pour_preserves_units:
  assumes "list_index (vials b) fi = Inr i" "list_index (vials b) ti = Inr j" "i \<noteq> j"
  shows "(is_number (vial_size b) \<longrightarrow>
          (\<exists>r a' b'. PourAction_apply (PourAction_init fi ti) b = Some (Inr (r, a', b'))
            \<and> units b' = units b \<and> length (vials b') = length (vials b)
            \<and> (\<forall>n. n \<noteq> i \<and> n \<noteq> j \<longrightarrow> vials b' ! n = vials b ! n)))
       \<and> (\<forall>a::pour_action. from_index a = fi \<and> to_index a = ti \<and> applied a
               \<and> qty_moved a \<le> length (vials b ! j) \<longrightarrow>
            (\<exists>b'. PourAction_undo a b = Inr b'
               \<and> units b' = units b \<and> length (vials b') = length (vials b)
               \<and> (\<forall>n. n \<noteq> i \<and> n \<noteq> j \<longrightarrow> vials b' ! n = vials b ! n)))
       \<and> (\<not> is_number (vial_size b) \<longrightarrow>
            PourAction_apply (PourAction_init fi ti) b = Some (Inl TypeError)
            \<or> PourAction_apply (PourAction_init fi ti) b =
                Some (Inr (False,
                  \<lparr>from_index = fi, to_index = ti, qty_moved = 0, applied = True\<rparr>, b)))"
proof (intro conjI allI impI)
  assume nn: "\<not> is_number (vial_size b)"
  show "PourAction_apply (PourAction_init fi ti) b = Some (Inl TypeError)
            \<or> PourAction_apply (PourAction_init fi ti) b =
                Some (Inr (False,
                  \<lparr>from_index = fi, to_index = ti, qty_moved = 0, applied = True\<rparr>, b))"
  proof (cases "vials b ! i = [] \<or> (vials b ! j \<noteq> [] \<and> last (vials b ! j) \<noteq> last (vials b ! i))")
    case True
    from PourAction_apply_early(1)[OF assms(1,2) True] show ?thesis by simp
  next
    case False
    from PourAction_apply_not_number[OF assms(1,2) False nn] show ?thesis by simp
  qed
next
  assume num: "is_number (vial_size b)"
  have il: "i < length (vials b)" and jl: "j < length (vials b)"
    using assms list_index_less by blast+
  have "units (b\<lparr>vials := poured (vials b) i j (pour_qty b i j)\<rparr>) = units b"
    using units_poured[OF assms(3) il jl pour_qty_le_run[of b i j]] by (simp add: units_def)
  moreover have "\<forall>n. n \<noteq> i \<and> n \<noteq> j \<longrightarrow>
      poured (vials b) i j (pour_qty b i j) ! n = vials b ! n"
    by (simp add: poured_def)
  ultimately show "\<exists>r a' b'. PourAction_apply (PourAction_init fi ti) b = Some (Inr (r, a', b'))
            \<and> units b' = units b \<and> length (vials b') = length (vials b)
            \<and> (\<forall>n. n \<noteq> i \<and> n \<noteq> j \<longrightarrow> vials b' ! n = vials b ! n)"
    using PourAction_apply_distinct[OF assms num] by (simp add: length_poured)
next
  fix a :: pour_action
  assume a: "from_index a = fi \<and> to_index a = ti \<and> applied a
               \<and> qty_moved a \<le> length (vials b ! j)"
  have il: "i < length (vials b)" and jl: "j < length (vials b)"
    using assms list_index_less by blast+
  from a have k: "qty_moved a \<le> length (vials b ! j)" by simp
  from units_undo_loop[OF assms(3) il jl k] obtain vs' where
    "undo_loop i j (qty_moved a) (vials b) = Inr vs'" "mset (concat vs') = mset (concat (vials b))"
    "length vs' = length (vials b)" "\<forall>n. n \<noteq> i \<and> n \<noteq> j \<longrightarrow> vs' ! n = vials b ! n"
    by auto
  then show "\<exists>b'. PourAction_undo a b = Inr b'
               \<and> units b' = units b \<and> length (vials b') = length (vials b)
               \<and> (\<forall>n. n \<noteq> i \<and> n \<noteq> j \<longrightarrow> vials b' ! n = vials b ! n)"
    using a assms(1,2) by (simp add: PourAction_undo_def units_def)
qed

theorem pour_preserves_units_witness:
  "list_index (vials (Board_init (JInt 3) [[4, 7, 7], [9], [7]])) 0 = Inr 0
   \<and> list_index (vials (Board_init (JInt 3) [[4, 7, 7], [9], [7]])) (- 1) = Inr 2
   \<and> (0::nat) \<noteq> 2
   \<and> is_number (vial_size (Board_init (JInt 3) [[4, 7, 7], [9], [7]]))
   \<and> PourAction_apply (PourAction_init 0 (- 1)) (Board_init (JInt 3) [[4, 7, 7], [9], [7]]) =
       Some (Inr (True, \<lparr>from_index = 0, to_index = - 1, qty_moved = 2, applied = True\<rparr>,
                  Board_init (JInt 3) [[4], [9], [7, 7, 7]]))
   \<and> units (Board_init (JInt 3) [[4], [9], [7, 7, 7]])
       = units (Board_init (JInt 3) [[4, 7, 7], [9], [7]])"
proof -
  let ?b = "Board_init (JInt 3) [[4, 7, 7], [9], [7]]"
  have i: "list_index (vials ?b) 0 = Inr 0" and j: "list_index (vials ?b) (- 1) = Inr 2"
    by (simp_all add: list_index_def Board_init_def)
  have d: "(0::nat) \<noteq> 2" by simp
  have num: "is_number (vial_size ?b)" by (simp add: Board_init_def)
  have ap: "PourAction_apply (PourAction_init 0 (- 1)) ?b =
       Some (Inr (True, \<lparr>from_index = 0, to_index = - 1, qty_moved = 2, applied = True\<rparr>,
                  Board_init (JInt 3) [[4], [9], [7, 7, 7]]))"
    by (subst PourAction_apply_distinct[OF i j d num])
      (simp add: Board_init_def pour_qty_def pour_count_int top_run_def poured_def)
  from pour_preserves_units[OF i j d] num ap
  have "units (Board_init (JInt 3) [[4], [9], [7, 7, 7]]) = units ?b" by simp
  with i j d num ap show ?thesis by simp
qed

subsection \<open>The greedy pour\<close>

lemma top_run_stop:
  "take (length v - top_run c v) v = [] \<or> last (take (length v - top_run c v) v) \<noteq> c"
proof (induction v rule: rev_induct)
  case Nil
  then show ?case by simp
next
  case (snoc x xs)
  show ?case
  proof (cases "x = c")
    case True
    have "top_run c xs \<le> length xs" by (rule top_run_le)
    then show ?thesis using snoc True by (simp add: top_run_snoc)
  next
    case False
    then show ?thesis by (simp add: top_run_snoc)
  qed
qed

lemma pour_stops:
  assumes "i \<noteq> j" "i < length vs" "j < length vs"
  shows "poured vs i j (pour_count (JInt m) (top_run c (vs ! i)) (length (vs ! j))) ! i = []
       \<or> last (poured vs i j (pour_count (JInt m) (top_run c (vs ! i)) (length (vs ! j))) ! i) \<noteq> c
       \<or> m \<le> int (length (poured vs i j
                  (pour_count (JInt m) (top_run c (vs ! i)) (length (vs ! j))) ! j))"
proof (cases "top_run c (vs ! i) \<le> nat (m - int (length (vs ! j)))")
  case True
  then have k: "pour_count (JInt m) (top_run c (vs ! i)) (length (vs ! j)) = top_run c (vs ! i)"
    by (simp add: pour_count_int)
  have "poured vs i j (top_run c (vs ! i)) ! i = take (length (vs ! i) - top_run c (vs ! i)) (vs ! i)"
    using assms by (simp add: poured_def)
  then show ?thesis unfolding k using top_run_stop[of "vs ! i" c] by auto
next
  case False
  then have k: "pour_count (JInt m) (top_run c (vs ! i)) (length (vs ! j))
      = nat (m - int (length (vs ! j)))"
    by (simp add: pour_count_int)
  have "m \<le> int (length (vs ! j @ replicate (nat (m - int (length (vs ! j)))) (last (vs ! i))))"
    by simp
  then show ?thesis unfolding k using assms by (simp add: poured_def)
qed

text \<open>
  The greedy rule of \<open>PourAction.apply\<close> on a board with an integer \<open>vial_size\<close>, for
  valid indices that name two different vials: it returns; it moves \<open>k\<close> units, all of
  the colour of the source's top unit, from the top of the source to the top of the
  destination, where \<open>k = 0\<close> when the source is empty or the destination is non-empty
  with a different top unit, and otherwise \<open>k\<close> is the length of the run of that colour
  at the top of the source, cut at the free capacity of the destination, so that the
  pour ends with the source empty, a different colour on top of the source, or the
  destination at \<open>vial_size\<close>; it returns true exactly when \<open>k > 0\<close>, records \<open>k\<close>, and
  leaves the board as it was when \<open>k = 0\<close>.
\<close>

lemma pour_apply_greedy:
  assumes "list_index (vials b) fi = Inr i" "list_index (vials b) ti = Inr j" "i \<noteq> j"
    and "vial_size b = JInt m"
  shows "\<exists>k b'.
      PourAction_apply (PourAction_init fi ti) b =
        Some (Inr (0 < k, \<lparr>from_index = fi, to_index = ti, qty_moved = k, applied = True\<rparr>, b'))
    \<and> b' = b\<lparr>vials := (vials b)[i := take (length (vials b ! i) - k) (vials b ! i),
                                j := vials b ! j @ replicate k (last (vials b ! i))]\<rparr>
    \<and> (k = 0 \<longrightarrow> b' = b)
    \<and> (vials b ! i = [] \<or> (vials b ! j \<noteq> [] \<and> last (vials b ! j) \<noteq> last (vials b ! i))
         \<longrightarrow> k = 0)
    \<and> (\<not> (vials b ! i = [] \<or> (vials b ! j \<noteq> [] \<and> last (vials b ! j) \<noteq> last (vials b ! i)))
         \<longrightarrow> k = min (top_run (last (vials b ! i)) (vials b ! i))
                      (nat (m - int (length (vials b ! j))))
           \<and> (vials b' ! i = [] \<or> last (vials b' ! i) \<noteq> last (vials b ! i)
                \<or> m \<le> int (length (vials b' ! j))))"
proof -
  let ?k = "pour_qty b i j"
  let ?b' = "b\<lparr>vials := poured (vials b) i j ?k\<rparr>"
  let ?early = "vials b ! i = [] \<or> (vials b ! j \<noteq> [] \<and> last (vials b ! j) \<noteq> last (vials b ! i))"
  have il: "i < length (vials b)" and jl: "j < length (vials b)"
    using assms list_index_less by blast+
  have num: "is_number (vial_size b)" by (simp add: assms(4))
  have ap: "PourAction_apply (PourAction_init fi ti) b =
      Some (Inr (0 < ?k, \<lparr>from_index = fi, to_index = ti, qty_moved = ?k, applied = True\<rparr>, ?b'))"
    by (rule PourAction_apply_distinct[OF assms(1,2,3) num])
  have shape: "?b' = b\<lparr>vials := (vials b)[i := take (length (vials b ! i) - ?k) (vials b ! i),
                                j := vials b ! j @ replicate ?k (last (vials b ! i))]\<rparr>"
    by (simp add: poured_def)
  have zero: "?k = 0 \<longrightarrow> ?b' = b" by (simp add: poured_0)
  have early: "?early \<longrightarrow> ?k = 0" by (auto simp: pour_qty_def)
  have late: "?k = min (top_run (last (vials b ! i)) (vials b ! i))
                      (nat (m - int (length (vials b ! j))))
           \<and> (vials ?b' ! i = [] \<or> last (vials ?b' ! i) \<noteq> last (vials b ! i)
                \<or> m \<le> int (length (vials ?b' ! j)))" if ne: "\<not> ?early"
  proof
    from ne have k: "?k = pour_count (JInt m) (top_run (last (vials b ! i)) (vials b ! i))
        (length (vials b ! j))"
      by (auto simp: pour_qty_def assms(4))
    then show "?k = min (top_run (last (vials b ! i)) (vials b ! i))
                      (nat (m - int (length (vials b ! j))))"
      by (simp add: pour_count_int)
    show "vials ?b' ! i = [] \<or> last (vials ?b' ! i) \<noteq> last (vials b ! i)
                \<or> m \<le> int (length (vials ?b' ! j))"
      using pour_stops[OF assms(3) il jl, of m "last (vials b ! i)"] unfolding k by simp
  qed
  show ?thesis
    apply (rule exI[of _ ?k])
    apply (rule exI[of _ ?b'])
    using ap shape zero early late by blast
qed

subsection \<open>A pour from a vial to itself\<close>

text \<open>
  Claim C1 fails on the code: for every pair of valid indices \<open>PourAction.apply\<close> should
  return, true exactly when a unit moved and leaving the board unchanged otherwise.
  Where both indices name one vial that is neither empty nor full, the source and the
  destination are one list: the loop appends the top unit and pops it again, its
  condition never changes, and \<open>apply\<close> does not return.
\<close>

theorem greedy_pour_same_vial_never_returns:
  "PourAction_apply (PourAction_init 1 1) (Board_init (JInt 3) [[], [2, 2]]) = None"
proof -
  let ?b = "Board_init (JInt 3) [[], [2, 2]]"
  have i: "list_index (vials ?b) 1 = Inr 1"
    by (simp add: list_index_def Board_init_def)
  have ne: "vials ?b ! 1 \<noteq> []" by (simp add: Board_init_def)
  have lt: "len_lt (length (vials ?b ! 1)) (vial_size ?b) = Inr True"
    by (simp add: Board_init_def)
  show ?thesis by (rule PourAction_apply_same(1)[OF i i ne lt])
qed

text \<open>
  Claim C6 fails on the code: a pour from a vial to itself returns false and changes
  nothing only when the vial is empty or full. On the first vial of the specification's
  scenario board, which holds two units of four, neither \<open>PourAction.apply\<close> nor
  \<open>Board.pour\<close> returns.
\<close>

theorem self_pour_never_returns:
  "PourAction_apply (PourAction_init 0 0) (Board_init (JInt 4) [[1, 1], [1], []]) = None
   \<and> pour (Board_init (JInt 4) [[1, 1], [1], []]) 0 0 = None"
proof -
  let ?b = "Board_init (JInt 4) [[1, 1], [1], []]"
  have i: "list_index (vials ?b) 0 = Inr 0"
    by (simp add: list_index_def Board_init_def)
  have ne: "vials ?b ! 0 \<noteq> []" by (simp add: Board_init_def)
  have lt: "len_lt (length (vials ?b ! 0)) (vial_size ?b) = Inr True"
    by (simp add: Board_init_def)
  have "PourAction_apply (PourAction_init 0 0) ?b = None"
    by (rule PourAction_apply_same(1)[OF i i ne lt])
  then show ?thesis by (simp add: pour_def apply_action_def)
qed

subsection \<open>The undo history\<close>



lemma undo_empty_history: "history b = [] \<Longrightarrow> undo b = Inr b"
  by (simp add: undo_def)



lemma add_empty_vial_result:
  "add_empty_vial b =
     Some (Inr (b\<lparr>vials := vials b @ [[]], history := history b @ [AddEmptyVialAction]\<rparr>))"
  by (simp add: add_empty_vial_def apply_action_def AddEmptyVialAction_apply_def)

lemma add_empty_vial_undo:
  "undo (b\<lparr>vials := vials b @ [[]], history := history b @ [AddEmptyVialAction]\<rparr>) = Inr b"
  by (simp add: undo_def AddEmptyVialAction_undo_def)

lemma pour_result:
  assumes "pour b fi ti = Some (Inr b')"
  shows "\<exists>i j. list_index (vials b) fi = Inr i \<and> list_index (vials b) ti = Inr j
           \<and> (0 < pour_qty b i j \<longrightarrow> i \<noteq> j)
           \<and> b' = (if 0 < pour_qty b i j
                   then b\<lparr>vials := poured (vials b) i j (pour_qty b i j),
                          history := history b @ [PourAction
                            \<lparr>from_index = fi, to_index = ti, qty_moved = pour_qty b i j,
                               applied = True\<rparr>]\<rparr>
                   else b)"
proof -
  from assms obtain r a' b0 where
    ap: "PourAction_apply (PourAction_init fi ti) b = Some (Inr (r, a', b0))"
    and b': "b' = (if \<not> r then b0 else b0\<lparr>history := history b0 @ [PourAction a']\<rparr>)"
    by (auto simp: pour_def apply_action_def split: option.splits sum.splits if_splits)
  from PourAction_apply_result[OF ap] obtain i j where
    i: "list_index (vials b) fi = Inr i" and j: "list_index (vials b) ti = Inr j"
    and d: "0 < pour_qty b i j \<longrightarrow> i \<noteq> j"
    and r: "r = (0 < pour_qty b i j)"
    and a': "a' = \<lparr>from_index = fi, to_index = ti, qty_moved = pour_qty b i j, applied = True\<rparr>"
    and b0: "b0 = b\<lparr>vials := poured (vials b) i j (pour_qty b i j)\<rparr>"
    by auto
  have "b' = (if 0 < pour_qty b i j
                   then b\<lparr>vials := poured (vials b) i j (pour_qty b i j),
                          history := history b @ [PourAction
                            \<lparr>from_index = fi, to_index = ti, qty_moved = pour_qty b i j,
                               applied = True\<rparr>]\<rparr>
                   else b)"
    unfolding b' r a' b0 by (simp add: poured_0)
  with i j d show ?thesis by (intro exI[of _ i] exI[of _ j] conjI)
qed


lemma pour_recorded_or_noop:
  assumes "pour b fi ti = Some (Inr b')"
  shows "b' = b \<or> (history b' \<noteq> [] \<and> undo b' = Inr b)"
proof -
  from pour_result[OF assms] obtain i j where
    i: "list_index (vials b) fi = Inr i" and j: "list_index (vials b) ti = Inr j"
    and d: "0 < pour_qty b i j \<longrightarrow> i \<noteq> j"
    and b': "b' = (if 0 < pour_qty b i j
                   then b\<lparr>vials := poured (vials b) i j (pour_qty b i j),
                          history := history b @ [PourAction
                            \<lparr>from_index = fi, to_index = ti, qty_moved = pour_qty b i j,
                               applied = True\<rparr>]\<rparr>
                   else b)"
    by (elim exE conjE)
  show ?thesis
  proof (cases "0 < pour_qty b i j")
    case False
    then show ?thesis using b' by simp
  next
    case True
    have "PourAction_undo \<lparr>from_index = fi, to_index = ti, qty_moved = pour_qty b i j, applied = True\<rparr>
        (b\<lparr>vials := poured (vials b) i j (pour_qty b i j)\<rparr>) = Inr b"
      by (rule PourAction_undo_poured[OF i j d pour_qty_le_run])
    then show ?thesis using True b' by (simp add: undo_def)
  qed
qed

lemma undo_all_step:
  assumes "history b' \<noteq> []" "undo b' = Inr b"
  shows "undo_all b' = undo_all b"
  using assms by (subst undo_all.simps) simp

lemma call_board_undo_all:
  assumes "call_board b c = Some (Inr b')"
  shows "undo_all b' = undo_all b"
proof (cases c)
  case (Pour fi ti)
  with assms have "pour b fi ti = Some (Inr b')" by simp
  from pour_recorded_or_noop[OF this] show ?thesis
  proof
    assume "b' = b"
    then show ?thesis by simp
  next
    assume "history b' \<noteq> [] \<and> undo b' = Inr b"
    then show ?thesis using undo_all_step[of b' b] by simp
  qed
next
  case AddEmptyVial
  with assms have "b' = b\<lparr>vials := vials b @ [[]], history := history b @ [AddEmptyVialAction]\<rparr>"
    by (simp add: add_empty_vial_result)
  then show ?thesis
    using undo_all_step[of b' b] add_empty_vial_undo[of b] by simp
next
  case Undo
  with assms have u: "undo b = Inr b'" by simp
  show ?thesis
  proof (cases "history b = []")
    case True
    then show ?thesis using u by (simp add: undo_empty_history)
  next
    case False
    then show ?thesis using u undo_all_step[of b b'] by simp
  qed
qed

lemma run_calls_undo_all:
  "run_calls b calls = Some (Inr b') \<Longrightarrow> undo_all b' = undo_all b"
proof (induction calls arbitrary: b)
  case Nil
  then show ?case by simp
next
  case (Cons c cs)
  from Cons.prems obtain b1 where c: "call_board b c = Some (Inr b1)"
    and rest: "run_calls b1 cs = Some (Inr b')"
    by (auto split: option.splits sum.splits)
  from Cons.IH[OF rest] call_board_undo_all[OF c] show ?case by simp
qed

text \<open>
  Claim C3: from a board with an empty history (as \<open>load_board\<close> builds it), after any
  finite sequence of \<open>Board.pour\<close> and \<open>Board.add_empty_vial\<close> calls that returned
  (calls of \<open>Board.undo\<close> may be among them), calling \<open>Board.undo\<close> until the history is
  empty returns the board exactly as it was before the first call: the same vials, each
  with the sequence it held, and the empty history.
\<close>

theorem undo_all_restores:
  assumes "history b = []" "run_calls b calls = Some (Inr b')"
  shows "undo_all b' = Inr b"
  using run_calls_undo_all[OF assms(2)] assms(1) by (simp add: undo_all.simps)

lemma scenario_calls:
  "run_calls (Board_init (JInt 4) [[1, 1], [1], []]) [Pour 0 2, AddEmptyVial, Pour 1 2, Pour 3 0] =
     Some (Inr \<lparr>vial_size = JInt 4, vials = [[], [], [1, 1, 1], []],
                history = [PourAction \<lparr>from_index = 0, to_index = 2, qty_moved = 2, applied = True\<rparr>,
                           AddEmptyVialAction,
                           PourAction \<lparr>from_index = 1, to_index = 2, qty_moved = 1, applied = True\<rparr>]\<rparr>)"
proof -
  let ?b0 = "Board_init (JInt 4) [[1, 1], [1], []]"
  let ?a1 = "PourAction \<lparr>from_index = 0, to_index = 2, qty_moved = 2, applied = True\<rparr>"
  let ?a3 = "PourAction \<lparr>from_index = 1, to_index = 2, qty_moved = 1, applied = True\<rparr>"
  let ?b1 = "\<lparr>vial_size = JInt 4, vials = [[], [1], [1, 1]], history = [?a1]\<rparr>"
  let ?b2 = "\<lparr>vial_size = JInt 4, vials = [[], [1], [1, 1], []], history = [?a1, AddEmptyVialAction]\<rparr>"
  let ?b3 = "\<lparr>vial_size = JInt 4, vials = [[], [], [1, 1, 1], []],
      history = [?a1, AddEmptyVialAction, ?a3]\<rparr>"
  have i0: "list_index (vials ?b0) 0 = Inr 0" and i2: "list_index (vials ?b0) 2 = Inr 2"
    by (simp_all add: list_index_def Board_init_def)
  have 1: "pour ?b0 0 2 = Some (Inr ?b1)"
    unfolding pour_def apply_action_def action_apply.simps
    by (subst PourAction_apply_distinct[OF i0 i2])
      (simp_all add: Board_init_def pour_qty_def pour_count_int top_run_def poured_def)
  have 2: "add_empty_vial ?b1 = Some (Inr ?b2)"
    by (simp add: add_empty_vial_result)
  have j1: "list_index (vials ?b2) 1 = Inr 1" and j2: "list_index (vials ?b2) 2 = Inr 2"
    by (simp_all add: list_index_def)
  have 3: "pour ?b2 1 2 = Some (Inr ?b3)"
    unfolding pour_def apply_action_def action_apply.simps
    by (subst PourAction_apply_distinct[OF j1 j2])
      (simp_all add: pour_qty_def pour_count_int top_run_def poured_def)
  have k3: "list_index (vials ?b3) 3 = Inr 3" and k0: "list_index (vials ?b3) 0 = Inr 0"
    by (simp_all add: list_index_def)
  have 4: "pour ?b3 3 0 = Some (Inr ?b3)"
    unfolding pour_def apply_action_def action_apply.simps
    by (subst PourAction_apply_distinct[OF k3 k0])
      (simp_all add: pour_qty_def pour_count_int top_run_def poured_def)
  show ?thesis
    by (simp only: run_calls.simps call_board.simps 1 2 3 4 option.case sum.case)
qed

theorem undo_all_restores_witness:
  "history (Board_init (JInt 4) [[1, 1], [1], []]) = []
   \<and> run_calls (Board_init (JInt 4) [[1, 1], [1], []]) [Pour 0 2, AddEmptyVial, Pour 1 2, Pour 3 0] =
       Some (Inr \<lparr>vial_size = JInt 4, vials = [[], [], [1, 1, 1], []],
                history = [PourAction \<lparr>from_index = 0, to_index = 2, qty_moved = 2, applied = True\<rparr>,
                           AddEmptyVialAction,
                           PourAction \<lparr>from_index = 1, to_index = 2, qty_moved = 1, applied = True\<rparr>]\<rparr>)
   \<and> undo_all \<lparr>vial_size = JInt 4, vials = [[], [], [1, 1, 1], []],
                history = [PourAction \<lparr>from_index = 0, to_index = 2, qty_moved = 2, applied = True\<rparr>,
                           AddEmptyVialAction,
                           PourAction \<lparr>from_index = 1, to_index = 2, qty_moved = 1, applied = True\<rparr>]\<rparr>
       = Inr (Board_init (JInt 4) [[1, 1], [1], []])"
proof -
  have h: "history (Board_init (JInt 4) [[1, 1], [1], []]) = []" by (simp add: Board_init_def)
  from undo_all_restores[OF h scenario_calls] h scenario_calls show ?thesis by simp
qed

subsection \<open>The capacity invariant\<close>


















subsection \<open>Loading a board\<close>






lemma scenario_load:
  \<open>load_board (Inr (JObj [(''vial_size'', JInt 4),
        (''vials'', JArr [JArr [JInt 1, JInt 1], JArr [JInt 1], JArr []])])) =
     Inr (Board_init (JInt 4) [[1, 1], [1], []])\<close>
  by (simp add: load_board_def units_of_def)



end
